theory Spec2Isabelle
  imports Main "HOL-Library.Sublist"
begin

section \<open>Strings and characters\<close>

text \<open>
  The timeranges, texts and lines of a transcript and the labels of entities are
  modelled as \<^typ>\<open>string\<close>; a \<^typ>\<open>char\<close> stands for a code point below 256 (the
  Latin-1 block of Unicode), read through \<^term>\<open>of_char\<close>. The character classes below
  are those of CPython on that block. The sentences that the two filters read are
  modelled over a wider alphabet, introduced with the regular expressions.
\<close>

type_synonym segment = "string \<times> string"

datatype error = ValueError | IndexError | FileNotFoundError

definition code :: "char \<Rightarrow> nat" where
  "code c = of_char c"

text \<open>\<open>str.islower\<close> on a one-character string.\<close>

definition islower :: "char \<Rightarrow> bool" where
  "islower c =
     (let n = code c
      in (0x61 \<le> n \<and> n \<le> 0x7A) \<or> n = 0xAA \<or> n = 0xB5 \<or> n = 0xBA \<or>
         (0xDF \<le> n \<and> n \<le> 0xF6) \<or> (0xF8 \<le> n \<and> n \<le> 0xFF))"

text \<open>\<open>s.split(sep, 1)\<close> for a one-character separator: at most one split, at the first
  occurrence of the separator.\<close>

definition split1 :: "char \<Rightarrow> string \<Rightarrow> string list" where
  "split1 sep s =
     (if sep \<in> set s
      then [takeWhile (\<lambda>c. c \<noteq> sep) s, tl (dropWhile (\<lambda>c. c \<noteq> sep) s)]
      else [s])"

section \<open>merge_segments\<close>

text \<open>
  The body of the \<open>for\<close> loop of \<open>merge_segments\<close>: \<open>merged\<close> is the output list built so
  far. The tuple unpacking \<open>start_prev, _ = prev_range.split('-', 1)\<close> raises ValueError
  unless the split has two parts, and \<open>timerange.split('-', 1)[1]\<close> raises IndexError
  when the split has one part.
\<close>

fun merge_step :: "segment list \<Rightarrow> segment \<Rightarrow> error + segment list" where
  "merge_step merged (timerange, text) =
     (if text \<noteq> [] \<and> islower (text ! 0) \<and> merged \<noteq> [] then
        (case last merged of (prev_range, prev_text) \<Rightarrow>
          (case split1 (CHR ''-'') prev_range of
             [start_prev, _] \<Rightarrow>
               (case split1 (CHR ''-'') timerange of
                  _ # end_curr # _ \<Rightarrow>
                    Inr (merged[length merged - 1 :=
                           (start_prev @ ''-'' @ end_curr, prev_text @ '' '' @ text)])
                | _ \<Rightarrow> Inl IndexError)
           | _ \<Rightarrow> Inl ValueError))
      else Inr (merged @ [(timerange, text)]))"

fun merge_loop :: "segment list \<Rightarrow> segment list \<Rightarrow> error + segment list" where
  "merge_loop merged [] = Inr merged"
| "merge_loop merged (seg # segments) =
     (case merge_step merged seg of
        Inl e \<Rightarrow> Inl e
      | Inr merged' \<Rightarrow> merge_loop merged' segments)"

definition merge_segments :: "segment list \<Rightarrow> error + segment list" where
  "merge_segments segments = merge_loop [] segments"

text \<open>The start and the end of a timerange string, as the fold reads them.\<close>

definition range_start :: "string \<Rightarrow> string" where
  "range_start r = takeWhile (\<lambda>c. c \<noteq> CHR ''-'') r"

definition range_end :: "string \<Rightarrow> string" where
  "range_end r = tl (dropWhile (\<lambda>c. c \<noteq> CHR ''-'') r)"

definition starts_lower :: "string \<Rightarrow> bool" where
  "starts_lower text = (text \<noteq> [] \<and> islower (text ! 0))"

definition has_dash :: "string \<Rightarrow> bool" where
  "has_dash r = (CHR ''-'' \<in> set r)"

section \<open>Regular expressions\<close>

text \<open>
  The fragment of Python's \<open>re\<close> that the three patterns of the source use: literal
  characters, concatenation, alternation, \<open>?\<close>, groups, \<open>\b\<close> and \<open>^\<close>, with the
  \<open>IGNORECASE\<close> flag.

  A sentence goes through \<open>str.lower\<close> and through patterns compiled with
  \<open>IGNORECASE\<close>. Four code points above 255 match an ASCII letter under \<open>IGNORECASE\<close>:
  U+0130 and U+0131 match \<open>i\<close>, U+017F matches \<open>s\<close>, U+212A matches \<open>k\<close>; and
  \<open>str.lower\<close> turns U+0130 into \<open>i\<close> followed by U+0307. The alphabet of a sentence is
  therefore the code points below 256 together with these five. The pattern literals of
  the source are ASCII and stay of type \<^typ>\<open>char\<close>.
\<close>

datatype codepoint = Latin1 char | U0130 | U0131 | U017F | U0307 | U212A

type_synonym sentence = "codepoint list"

text \<open>\<open>\w\<close> and \<open>str.lower\<close> on code points below 256.\<close>

definition is_word_char :: "char \<Rightarrow> bool" where
  "is_word_char c =
     (let n = code c
      in (0x30 \<le> n \<and> n \<le> 0x39) \<or> (0x41 \<le> n \<and> n \<le> 0x5A) \<or> n = 0x5F \<or>
         (0x61 \<le> n \<and> n \<le> 0x7A) \<or> n = 0xAA \<or> (0xB2 \<le> n \<and> n \<le> 0xB3) \<or>
         n = 0xB5 \<or> (0xB9 \<le> n \<and> n \<le> 0xBA) \<or> (0xBC \<le> n \<and> n \<le> 0xBE) \<or>
         (0xC0 \<le> n \<and> n \<le> 0xD6) \<or> (0xD8 \<le> n \<and> n \<le> 0xF6) \<or>
         (0xF8 \<le> n \<and> n \<le> 0xFF))"

definition lower_char :: "char \<Rightarrow> char" where
  "lower_char c =
     (let n = code c
      in if (0x41 \<le> n \<and> n \<le> 0x5A) \<or> (0xC0 \<le> n \<and> n \<le> 0xD6) \<or>
            (0xD8 \<le> n \<and> n \<le> 0xDE)
         then char_of (n + 0x20) else c)"

text \<open>\<open>\w\<close> on a code point of a sentence.\<close>

fun is_word_codepoint :: "codepoint \<Rightarrow> bool" where
  "is_word_codepoint (Latin1 c) = is_word_char c"
| "is_word_codepoint U0130 = True"
| "is_word_codepoint U0131 = True"
| "is_word_codepoint U017F = True"
| "is_word_codepoint U0307 = False"
| "is_word_codepoint U212A = True"

text \<open>\<open>str.lower\<close> on a one-character string, and on a sentence.\<close>

fun lower_codepoint :: "codepoint \<Rightarrow> sentence" where
  "lower_codepoint (Latin1 c) = [Latin1 (lower_char c)]"
| "lower_codepoint U0130 = [Latin1 CHR ''i'', U0307]"
| "lower_codepoint U0131 = [U0131]"
| "lower_codepoint U017F = [U017F]"
| "lower_codepoint U0307 = [U0307]"
| "lower_codepoint U212A = [Latin1 CHR ''k'']"

definition lower :: "sentence \<Rightarrow> sentence" where
  "lower s = concat (map lower_codepoint s)"

text \<open>
  What \<open>IGNORECASE\<close> compares: a literal \<open>p\<close> of the pattern matches the code point \<open>c\<close>
  of the text when \<open>c\<close>, lowered by the matcher's own table, is the lowered \<open>p\<close>; that
  table sends U+0130 and U+0131 to \<open>i\<close>, U+017F to \<open>s\<close> and U+212A to \<open>k\<close>.
\<close>

fun ignorecase_key :: "codepoint \<Rightarrow> codepoint" where
  "ignorecase_key (Latin1 c) = Latin1 (lower_char c)"
| "ignorecase_key U0130 = Latin1 CHR ''i''"
| "ignorecase_key U0131 = Latin1 CHR ''i''"
| "ignorecase_key U017F = Latin1 CHR ''s''"
| "ignorecase_key U0307 = U0307"
| "ignorecase_key U212A = Latin1 CHR ''k''"

datatype regex =
    Eps
  | Lit char
  | Cat regex regex
  | Alt regex regex
  | Opt regex
  | Group regex
  | WordBoundary
  | StartOfString

text \<open>A compiled pattern: the expression and whether \<open>re.IGNORECASE\<close> is set.\<close>

type_synonym pattern = "regex \<times> bool"

definition re_compile :: "regex \<Rightarrow> bool \<Rightarrow> pattern" where
  "re_compile r ignorecase = (r, ignorecase)"

definition char_matches :: "bool \<Rightarrow> char \<Rightarrow> codepoint \<Rightarrow> bool" where
  "char_matches ignorecase p c =
     (if ignorecase then ignorecase_key c = Latin1 (lower_char p) else c = Latin1 p)"

definition word_before :: "sentence \<Rightarrow> nat \<Rightarrow> bool" where
  "word_before s i = (0 < i \<and> is_word_codepoint (s ! (i - 1)))"

definition word_after :: "sentence \<Rightarrow> nat \<Rightarrow> bool" where
  "word_after s i = (i < length s \<and> is_word_codepoint (s ! i))"

text \<open>
  \<open>ends ic s r i\<close> lists the positions at which a match of \<open>r\<close> that starts at position
  \<open>i\<close> of \<open>s\<close> can end, in the order in which the backtracking matcher tries them
  (left alternative first, \<open>?\<close> greedy).
\<close>

fun ends :: "bool \<Rightarrow> sentence \<Rightarrow> regex \<Rightarrow> nat \<Rightarrow> nat list" where
  "ends ic s Eps i = [i]"
| "ends ic s (Lit p) i = (if i < length s \<and> char_matches ic p (s ! i) then [Suc i] else [])"
| "ends ic s (Cat r1 r2) i = concat (map (ends ic s r2) (ends ic s r1 i))"
| "ends ic s (Alt r1 r2) i = ends ic s r1 i @ ends ic s r2 i"
| "ends ic s (Opt r) i = ends ic s r i @ [i]"
| "ends ic s (Group r) i = ends ic s r i"
| "ends ic s WordBoundary i = (if word_before s i \<noteq> word_after s i then [i] else [])"
| "ends ic s StartOfString i = (if i = 0 then [i] else [])"

text \<open>The span of the match found at position \<open>i\<close>, or \<open>None\<close>.\<close>

definition match_at :: "pattern \<Rightarrow> sentence \<Rightarrow> nat \<Rightarrow> (nat \<times> nat) option" where
  "match_at p s i = (case ends (snd p) s (fst p) i of [] \<Rightarrow> None | j # _ \<Rightarrow> Some (i, j))"

text \<open>\<open>Pattern.match\<close>: a match at the start of the string.\<close>

definition re_match :: "pattern \<Rightarrow> sentence \<Rightarrow> (nat \<times> nat) option" where
  "re_match p s = match_at p s 0"

text \<open>\<open>Pattern.search\<close>: the match at the first position that has one.\<close>

definition re_search :: "pattern \<Rightarrow> sentence \<Rightarrow> (nat \<times> nat) option" where
  "re_search p s =
     (case List.find (\<lambda>i. match_at p s i \<noteq> None) [0..<Suc (length s)] of
        None \<Rightarrow> None
      | Some i \<Rightarrow> match_at p s i)"

text \<open>The truth value of the result of a match or a search: a match object is true,
  \<open>None\<close> is false.\<close>

definition bool_of_match :: "(nat \<times> nat) option \<Rightarrow> bool" where
  "bool_of_match m = (m \<noteq> None)"

fun lit :: "string \<Rightarrow> regex" where
  "lit [] = Eps"
| "lit (c # cs) = Cat (Lit c) (lit cs)"

fun alts :: "regex list \<Rightarrow> regex" where
  "alts [] = Eps"
| "alts [r] = r"
| "alts (r # rs) = Alt r (alts rs)"

section \<open>is_strong_claim\<close>

text \<open>\<open>r"\b(lose|gain|burn|get|makes?|is|will|can|do)\b"\<close>, \<open>re.IGNORECASE\<close>.\<close>

definition VERB_PATTERN :: pattern where
  "VERB_PATTERN =
     re_compile
       (Cat WordBoundary
         (Cat (Group (alts [lit ''lose'', lit ''gain'', lit ''burn'', lit ''get'',
                            Cat (lit ''make'') (Opt (Lit CHR ''s'')),
                            lit ''is'', lit ''will'', lit ''can'', lit ''do'']))
              WordBoundary))
       True"

text \<open>\<open>r"^(one of|that'?s|my name|that's)"\<close>, \<open>re.IGNORECASE\<close>.\<close>

definition INTRO_PATTERN :: pattern where
  "INTRO_PATTERN =
     re_compile
       (Cat StartOfString
         (Group (alts [lit ''one of'',
                       Cat (lit ''that'') (Cat (Opt (Lit (CHR 0x27))) (Lit CHR ''s'')),
                       lit ''my name'',
                       lit ''that's''])))
       True"

text \<open>
  The body of \<open>is_strong_claim\<close>, with the module-level intro pattern it reads as a
  parameter.
\<close>

definition is_strong_claim_with :: "pattern \<Rightarrow> sentence \<Rightarrow> bool" where
  "is_strong_claim_with intro sent =
     (let sent_l = lower sent
      in if bool_of_match (re_match intro sent_l) then False
         else bool_of_match (re_search VERB_PATTERN sent_l))"

definition is_strong_claim :: "sentence \<Rightarrow> bool" where
  "is_strong_claim sent = is_strong_claim_with INTRO_PATTERN sent"

text \<open>The intro pattern without its last alternative: \<open>r"^(one of|that'?s|my name)"\<close>.\<close>

definition INTRO_PATTERN_deduplicated :: pattern where
  "INTRO_PATTERN_deduplicated =
     re_compile
       (Cat StartOfString
         (Group (alts [lit ''one of'',
                       Cat (lit ''that'') (Cat (Opt (Lit (CHR 0x27))) (Lit CHR ''s'')),
                       lit ''my name''])))
       True"

section \<open>load_transcript\<close>

text \<open>\<open>str.isspace\<close> on a one-character string, and \<open>str.strip()\<close>.\<close>

definition isspace :: "char \<Rightarrow> bool" where
  "isspace c =
     (let n = code c
      in (0x09 \<le> n \<and> n \<le> 0x0D) \<or> (0x1C \<le> n \<and> n \<le> 0x20) \<or> n = 0x85 \<or> n = 0xA0)"

definition strip :: "string \<Rightarrow> string" where
  "strip s = dropWhile isspace (rev (dropWhile isspace (rev s)))"

text \<open>
  A file system maps a path to the text of the file there (decoded, newlines translated
  to \<open>\n\<close>). Iterating over the open file yields its lines, each with its newline.
\<close>

type_synonym filesystem = "string \<rightharpoonup> string"

fun file_lines :: "string \<Rightarrow> string list" where
  "file_lines [] = []"
| "file_lines (c # cs) =
     (if c = CHR 0x0A then [c] # file_lines cs
      else (case file_lines cs of
              [] \<Rightarrow> [[c]]
            | l # ls \<Rightarrow> (c # l) # ls))"

text \<open>
  The \<open>for\<close> loop of \<open>load_transcript\<close>: unpacking \<open>timerange, text = line.split(":", 1)\<close>
  raises ValueError when the line has no colon.
\<close>

fun load_loop :: "segment list \<Rightarrow> string list \<Rightarrow> error + segment list" where
  "load_loop segments [] = Inr segments"
| "load_loop segments (line # rest) =
     (let line = strip line
      in if line = [] then load_loop segments rest
         else (case split1 (CHR '':'') line of
                 [timerange, text] \<Rightarrow>
                   load_loop (segments @ [(strip timerange, strip text)]) rest
               | _ \<Rightarrow> Inl ValueError))"

definition load_transcript :: "filesystem \<Rightarrow> string \<Rightarrow> error + segment list" where
  "load_transcript fs path =
     (case fs path of
        None \<Rightarrow> Inl FileNotFoundError
      | Some content \<Rightarrow> load_loop [] (file_lines content))"

section \<open>filter_claims\<close>

type_synonym entity = "string \<times> string"

type_synonym tagged = "string \<times> sentence \<times> entity list"

text \<open>\<open>r"\b(calories?|pound(s)?|weight|energy)\b"\<close>, \<open>re.IGNORECASE\<close>.\<close>

definition default_keyword_pattern :: pattern where
  "default_keyword_pattern =
     re_compile
       (Cat WordBoundary
         (Cat (Group (alts [Cat (lit ''calorie'') (Opt (Lit CHR ''s'')),
                            Cat (lit ''pound'') (Opt (Group (Lit CHR ''s''))),
                            lit ''weight'', lit ''energy'']))
              WordBoundary))
       True"

definition default_allowed_labels :: "string set" where
  "default_allowed_labels = {''QUANTITY'', ''CARDINAL'', ''PERCENT''}"

fun filter_loop :: "string set \<Rightarrow> pattern \<Rightarrow> tagged list \<Rightarrow> tagged list \<Rightarrow> tagged list" where
  "filter_loop allowed_labels keyword_pattern claims [] = claims"
| "filter_loop allowed_labels keyword_pattern claims ((timerange, sent, ents) # rest) =
     (let has_numeric = list_ex (\<lambda>(_, label). label \<in> allowed_labels) ents;
          has_keyword = bool_of_match (re_search keyword_pattern sent)
      in if has_numeric \<or> has_keyword
         then filter_loop allowed_labels keyword_pattern (claims @ [(timerange, sent, ents)]) rest
         else filter_loop allowed_labels keyword_pattern claims rest)"

text \<open>A parameter left at its default \<open>None\<close> is \<open>None\<close> here too.\<close>

definition filter_claims ::
    "tagged list \<Rightarrow> string set option \<Rightarrow> pattern option \<Rightarrow> tagged list" where
  "filter_claims entity_results allowed_labels keyword_pattern =
     (let allowed_labels =
            (case allowed_labels of None \<Rightarrow> default_allowed_labels | Some a \<Rightarrow> a);
          keyword_pattern =
            (case keyword_pattern of None \<Rightarrow> default_keyword_pattern | Some p \<Rightarrow> p)
      in filter_loop allowed_labels keyword_pattern [] entity_results)"

section \<open>Words and prefixes, as the specification speaks of them\<close>

text \<open>
  The word \<open>w\<close> (given in lowercase ASCII) stands at position \<open>i\<close> of \<open>s\<close> as a whole
  word, case-insensitively: the characters there equal \<open>w\<close> once lowercased, and no word
  character stands right before or right after them.
\<close>

definition whole_word_at :: "sentence \<Rightarrow> string \<Rightarrow> nat \<Rightarrow> bool" where
  "whole_word_at s w i =
     (lower (take (length w) (drop i s)) = map Latin1 w \<and>
      \<not> word_before s i \<and> \<not> word_after s (i + length w))"

definition contains_word :: "string list \<Rightarrow> sentence \<Rightarrow> bool" where
  "contains_word ws s =
     list_ex (\<lambda>w. list_ex (whole_word_at s w) [0..<Suc (length s)]) ws"

definition starts_with_any :: "string list \<Rightarrow> sentence \<Rightarrow> bool" where
  "starts_with_any ps s = list_ex (\<lambda>p. prefix (map Latin1 p) s) ps"

text \<open>
  A sentence with none of U+0130, U+0131 and U+017F: the code points for which
  \<open>IGNORECASE\<close> and \<open>str.lower\<close> disagree.
\<close>

definition plain :: "codepoint \<Rightarrow> bool" where
  "plain c = (c \<noteq> U0130 \<and> c \<noteq> U0131 \<and> c \<noteq> U017F)"

definition plain_sentence :: "sentence \<Rightarrow> bool" where
  "plain_sentence s = list_all plain s"

definition has_label :: "string set \<Rightarrow> entity list \<Rightarrow> bool" where
  "has_label labels ents = (\<exists>(_, label) \<in> set ents. label \<in> labels)"

text \<open>The verbs, keywords and intro phrases that the specification lists, and the
  triples that the broad filter is said to retain.\<close>

definition assertion_verbs :: "string list" where
  "assertion_verbs = [''lose'', ''gain'', ''burn'', ''get'', ''make'', ''makes'', ''is'', ''will'', ''can'', ''do'']"

definition domain_keywords :: "string list" where
  "domain_keywords = [''calorie'', ''calories'', ''pound'', ''pounds'', ''weight'', ''energy'']"

definition intro_phrases :: "string list" where
  "intro_phrases = [''one of'', ''that's'', ''thats'', ''my name'']"

definition retained :: "tagged \<Rightarrow> bool" where
  "retained r =
     (case r of (timerange, sent, ents) \<Rightarrow>
        has_label default_allowed_labels ents \<or> contains_word domain_keywords sent)"

text \<open>What a well-formed line of the transcript parses to, and a line with no colon.\<close>

definition parse_line :: "string \<Rightarrow> segment" where
  "parse_line l =
     (strip (takeWhile (\<lambda>c. c \<noteq> CHR '':'') (strip l)),
      strip (tl (dropWhile (\<lambda>c. c \<noteq> CHR '':'') (strip l))))"

definition malformed :: "string \<Rightarrow> bool" where
  "malformed l = (strip l \<noteq> [] \<and> CHR '':'' \<notin> set l)"

text \<open>The literal \<open>w\<close> matches \<open>s\<close> at position \<open>i\<close>; and it does so as a whole word.\<close>

definition lit_at :: "bool \<Rightarrow> string \<Rightarrow> sentence \<Rightarrow> nat \<Rightarrow> bool" where
  "lit_at ic w s i = list_all2 (char_matches ic) w (take (length w) (drop i s))"

definition matches_word_at :: "sentence \<Rightarrow> string \<Rightarrow> nat \<Rightarrow> bool" where
  "matches_word_at s w i =
     (lit_at True w s i \<and> \<not> word_before s i \<and> \<not> word_after s (i + length w))"

section \<open>Properties of merge_segments\<close>

lemma merge_loop_append:
  "merge_loop merged (xs @ ys) =
     (case merge_loop merged xs of Inl e \<Rightarrow> Inl e | Inr m \<Rightarrow> merge_loop m ys)"
  by (induction xs arbitrary: merged) (simp_all split: sum.splits)

lemma merge_segments_snoc:
  "merge_segments (xs @ [seg]) =
     (case merge_segments xs of Inl e \<Rightarrow> Inl e | Inr m \<Rightarrow> merge_step m seg)"
  by (simp add: merge_segments_def merge_loop_append split: sum.splits)

lemma merge_step_fresh:
  "\<not> (starts_lower text \<and> merged \<noteq> []) \<Longrightarrow>
     merge_step merged (timerange, text) = Inr (merged @ [(timerange, text)])"
  by (auto simp: starts_lower_def)

lemma merge_step_fold:
  assumes "starts_lower text" and "merged \<noteq> []"
    and "last merged = (prev_range, prev_text)"
    and "CHR ''-'' \<in> set prev_range" and "CHR ''-'' \<in> set timerange"
  shows "merge_step merged (timerange, text) =
           Inr (butlast merged @
                  [(range_start prev_range @ ''-'' @ range_end timerange,
                    prev_text @ '' '' @ text)])"
proof -
  have upd: "merged[length merged - Suc 0 := v] = butlast merged @ [v]" for v
    using assms(2) by (induction merged rule: rev_induct) simp_all
  show ?thesis
    using assms by (simp add: starts_lower_def split1_def range_start_def range_end_def upd)
qed

lemma merge_step_first_text:
  assumes "merge_step m seg = Inr m'" and "m \<noteq> []"
  shows "m' \<noteq> [] \<and> prefix (snd (hd m)) (snd (hd m'))"
proof -
  obtain tr tx where seg: "seg = (tr, tx)" by (cases seg)
  show ?thesis
  proof (cases "tx \<noteq> [] \<and> islower (tx ! 0)")
    case False
    with assms seg show ?thesis by auto
  next
    case True
    with assms seg show ?thesis
      by (cases m rule: rev_cases)
         (auto split: prod.splits list.splits if_splits simp: hd_append)
  qed
qed

lemma merge_loop_first_text:
  "merge_loop m segs = Inr out \<Longrightarrow> m \<noteq> [] \<Longrightarrow>
     out \<noteq> [] \<and> prefix (snd (hd m)) (snd (hd out))"
proof (induction segs arbitrary: m)
  case Nil
  then show ?case by simp
next
  case (Cons seg segs)
  from Cons.prems obtain m' where st: "merge_step m seg = Inr m'" and lp: "merge_loop m' segs = Inr out"
    by (auto split: sum.splits)
  from merge_step_first_text[OF st Cons.prems(2)]
  have m': "m' \<noteq> []" "prefix (snd (hd m)) (snd (hd m'))" by simp_all
  from Cons.IH[OF lp m'(1)] m'(2) show ?case
    using prefix_order.trans by blast
qed

lemma merge_segments_nonempty:
  "merge_segments xs = Inr merged \<Longrightarrow> xs \<noteq> [] \<Longrightarrow> merged \<noteq> []"
proof -
  assume run: "merge_segments xs = Inr merged" and "xs \<noteq> []"
  then obtain seg rest where xs: "xs = seg # rest" by (cases xs) auto
  obtain tr tx where seg: "seg = (tr, tx)" by (cases seg)
  from run have "merge_loop [seg] rest = Inr merged"
    by (simp add: merge_segments_def xs seg)
  from merge_loop_first_text [OF this] show ?thesis by simp
qed

lemma merge_step_no_start:
  assumes "starts_lower text" and "merged \<noteq> []" and "\<not> has_dash (fst (last merged))"
  shows "merge_step merged (timerange, text) = Inl ValueError"
  using assms by (auto simp: starts_lower_def has_dash_def split1_def split: prod.splits)

lemma merge_step_no_end:
  assumes "starts_lower text" and "merged \<noteq> []" and "has_dash (fst (last merged))"
    and "\<not> has_dash timerange"
  shows "merge_step merged (timerange, text) = Inl IndexError"
  using assms by (auto simp: starts_lower_def has_dash_def split1_def split: prod.splits)

lemma merge_step_total:
  assumes "list_all (\<lambda>seg. has_dash (fst seg)) merged" and "has_dash (fst seg)"
  shows "\<exists>m'. merge_step merged seg = Inr m' \<and> list_all (\<lambda>seg. has_dash (fst seg)) m'"
proof -
  obtain tr tx where seg: "seg = (tr, tx)" by (cases seg)
  show ?thesis
  proof (cases "starts_lower tx \<and> merged \<noteq> []")
    case False
    then show ?thesis
      using assms seg by (simp add: merge_step_fresh del: merge_step.simps)
  next
    case True
    obtain pr pt where lst: "last merged = (pr, pt)" by (cases "last merged")
    from True assms(1) lst have "has_dash pr"
      by (metis fst_conv last_in_set list_all_iff)
    with True lst assms(2) seg
    have "merge_step merged seg =
            Inr (butlast merged @ [(range_start pr @ ''-'' @ range_end tr, pt @ '' '' @ tx)])"
      by (simp add: merge_step_fold has_dash_def del: merge_step.simps)
    moreover have "list_all (\<lambda>seg. has_dash (fst seg)) (butlast merged)"
      using assms(1) by (meson in_set_butlastD list_all_iff)
    ultimately show ?thesis
      by (simp add: has_dash_def)
  qed
qed

lemma merge_loop_total:
  "list_all (\<lambda>seg. has_dash (fst seg)) merged \<Longrightarrow> list_all (\<lambda>seg. has_dash (fst seg)) segs \<Longrightarrow>
     \<exists>out. merge_loop merged segs = Inr out"
proof (induction segs arbitrary: merged)
  case Nil
  show ?case by simp
next
  case (Cons seg segs)
  from merge_step_total[of merged seg] Cons.prems
  obtain m' where "merge_step merged seg = Inr m'" "list_all (\<lambda>seg. has_dash (fst seg)) m'"
    by auto
  with Cons.IH[of m'] Cons.prems(2) show ?case by simp
qed

lemma merge_segments_fails_after:
  "merge_segments xs = Inr merged \<Longrightarrow> merge_step merged seg = Inl e \<Longrightarrow>
     merge_segments (xs @ seg # rest) = Inl e"
  by (simp add: merge_segments_def merge_loop_append)

subsection \<open>The fold rule and the cascade\<close>

text \<open>
  C1. A segment whose text starts with a lowercase letter is folded into the last segment
  of the output built so far (so folds cascade): when \<open>merge_segments\<close> has produced
  \<open>merged\<close> from the non-empty \<open>xs\<close>, with last entry \<open>(prev_range, prev_text)\<close>, and both
  timeranges hold a \<open>-\<close>, the run on \<open>xs @ [(timerange, text)]\<close> replaces that last entry by the range
  from the start of \<open>prev_range\<close> to the end of \<open>timerange\<close> and the text
  \<open>prev_text\<close>, one space, \<open>text\<close>. The three segments 10-12 Hello, 12-14 world,
  14-16 today merge into the single segment 10-16 Hello world today.
\<close>

theorem merge_segments_fold_cascade:
  "(\<forall>xs merged prev_range prev_text timerange text.
      merge_segments xs = Inr merged \<and> xs \<noteq> [] \<and>
      last merged = (prev_range, prev_text) \<and> starts_lower text \<and>
      has_dash prev_range \<and> has_dash timerange \<longrightarrow>
      merged \<noteq> [] \<and>
      merge_segments (xs @ [(timerange, text)]) =
        Inr (butlast merged @
               [(range_start prev_range @ ''-'' @ range_end timerange,
                 prev_text @ '' '' @ text)])) \<and>
   merge_segments [(''10-12'', ''Hello''), (''12-14'', ''world''), (''14-16'', ''today'')] =
     Inr [(''10-16'', ''Hello world today'')]"
proof (intro conjI allI impI)
  fix xs merged prev_range prev_text timerange tx
  assume h: "merge_segments xs = Inr merged \<and> xs \<noteq> [] \<and>
      last merged = (prev_range, prev_text) \<and> starts_lower tx \<and>
      has_dash prev_range \<and> has_dash timerange"
  then show ne: "merged \<noteq> []"
    using merge_segments_nonempty [of xs merged] by simp
  from h ne have "merge_step merged (timerange, tx) =
      Inr (butlast merged @
             [(range_start prev_range @ ''-'' @ range_end timerange,
               prev_text @ '' '' @ tx)])"
    by (intro merge_step_fold) (simp_all add: has_dash_def)
  with h show "merge_segments (xs @ [(timerange, tx)]) =
      Inr (butlast merged @
             [(range_start prev_range @ ''-'' @ range_end timerange,
               prev_text @ '' '' @ tx)])"
    by (simp add: merge_segments_snoc del: merge_step.simps)
next
  show "merge_segments [(''10-12'', ''Hello''), (''12-14'', ''world''), (''14-16'', ''today'')] =
     Inr [(''10-16'', ''Hello world today'')]"
    by (simp add: merge_segments_def islower_def code_def split1_def)
qed

theorem merge_segments_fold_cascade_witness:
  "merge_segments [(''10-12'', ''Hello'')] = Inr [(''10-12'', ''Hello'')] \<and>
   starts_lower ''world'' \<and> has_dash ''10-12'' \<and> has_dash ''12-14'' \<and>
   merge_segments ([(''10-12'', ''Hello'')] @ [(''12-14'', ''world'')]) =
     Inr [(''10-14'', ''Hello world'')]"
proof -
  have h: "merge_segments [(''10-12'', ''Hello'')] = Inr [(''10-12'', ''Hello'')] \<and>
      [(''10-12'', ''Hello'')] \<noteq> [] \<and>
      last [(''10-12'', ''Hello'')] = (''10-12'', ''Hello'') \<and> starts_lower ''world'' \<and>
      has_dash ''10-12'' \<and> has_dash ''12-14''"
    by (simp add: merge_segments_def islower_def code_def starts_lower_def has_dash_def)
  from merge_segments_fold_cascade [THEN conjunct1, rule_format, OF h] h
  show ?thesis
    by (simp add: range_start_def range_end_def)
qed

text \<open>
  The two timeranges must hold a \<open>-\<close>. A first line \<open>intro: Hello\<close> of a transcript
  loads as the segment \<open>(intro, Hello)\<close>; the lowercase-start segment after it is not
  folded into it: the run raises ValueError.
\<close>

theorem merge_segments_fold_cascade_counterexample:
  "merge_segments [(''intro'', ''Hello'')] = Inr [(''intro'', ''Hello'')] \<and>
   starts_lower ''world'' \<and>
   merge_segments ([(''intro'', ''Hello'')] @ [(''0.0-3.0'', ''world'')]) = Inl ValueError \<and>
   merge_segments ([(''intro'', ''Hello'')] @ [(''0.0-3.0'', ''world'')]) \<noteq>
     Inr (butlast [(''intro'', ''Hello'')] @
            [(range_start ''intro'' @ ''-'' @ range_end ''0.0-3.0'', ''Hello'' @ '' '' @ ''world'')])"
  by (simp add: merge_segments_def starts_lower_def islower_def code_def split1_def)

subsection \<open>Inputs with no lowercase start\<close>

text \<open>
  C5. When no segment's text starts with a lowercase letter, \<open>merge_segments\<close> returns its
  input unchanged.
\<close>

theorem merge_segments_identity:
  assumes "list_all (\<lambda>seg. \<not> starts_lower (snd seg)) xs"
  shows "merge_segments xs = Inr xs"
  using assms
proof (induction xs rule: rev_induct)
  case Nil
  show ?case by (simp add: merge_segments_def)
next
  case (snoc seg xs)
  obtain tr tx where seg: "seg = (tr, tx)" by (cases seg)
  from snoc have "merge_segments xs = Inr xs" and "\<not> starts_lower tx"
    using seg by auto
  then show ?case
    using seg by (simp add: merge_segments_snoc merge_step_fresh del: merge_step.simps)
qed

theorem merge_segments_identity_witness:
  "list_all (\<lambda>seg. \<not> starts_lower (snd seg))
     [(''0.0-3.0'', ''You can burn''), (''3.0-5.0'', ''200 calories''), (''5.0-6.0'', [])] \<and>
   merge_segments
     [(''0.0-3.0'', ''You can burn''), (''3.0-5.0'', ''200 calories''), (''5.0-6.0'', [])] =
   Inr [(''0.0-3.0'', ''You can burn''), (''3.0-5.0'', ''200 calories''), (''5.0-6.0'', [])]"
proof -
  have h: "list_all (\<lambda>seg. \<not> starts_lower (snd seg))
     [(''0.0-3.0'', ''You can burn''), (''3.0-5.0'', ''200 calories''), (''5.0-6.0'', [])]"
    by (simp add: starts_lower_def islower_def code_def)
  from merge_segments_identity [OF h] h show ?thesis by simp
qed

subsection \<open>The first segment and empty texts\<close>

text \<open>
  C6. The first segment of a non-empty input is never folded, whatever its text: after
  the first iteration the output so far is that segment alone, a one-element input is
  returned as it is, and in every successful run the first output entry's text begins
  with the first input text. A segment with empty text never triggers a fold: it is
  appended to the output so far as an entry of its own.
\<close>

theorem merge_segments_first_and_empty:
  "merge_segments [(timerange, text)] = Inr [(timerange, text)] \<and>
   merge_segments ((timerange, text) # rest) = merge_loop [(timerange, text)] rest \<and>
   (\<forall>out. merge_segments ((timerange, text) # rest) = Inr out \<longrightarrow>
      out \<noteq> [] \<and> prefix text (snd (hd out))) \<and>
   merge_step merged (timerange, []) = Inr (merged @ [(timerange, [])]) \<and>
   merge_segments (xs @ [(timerange, [])]) =
     (case merge_segments xs of
        Inl e \<Rightarrow> Inl e
      | Inr m \<Rightarrow> Inr (m @ [(timerange, [])]))"
proof -
  have first: "merge_segments ((timerange, text) # rest) = merge_loop [(timerange, text)] rest"
    by (simp add: merge_segments_def)
  have "out \<noteq> [] \<and> prefix text (snd (hd out))"
    if "merge_segments ((timerange, text) # rest) = Inr out" for out
    using that merge_loop_first_text [of "[(timerange, text)]" rest out]
    by (simp add: first)
  moreover have "merge_segments [(timerange, text)] = Inr [(timerange, text)]"
    by (simp add: merge_segments_def)
  moreover have "merge_step merged (timerange, []) = Inr (merged @ [(timerange, [])])"
    by simp
  moreover have "merge_segments (xs @ [(timerange, [])]) =
     (case merge_segments xs of
        Inl e \<Rightarrow> Inl e
      | Inr m \<Rightarrow> Inr (m @ [(timerange, [])]))"
    by (simp add: merge_segments_snoc split: sum.splits)
  ultimately show ?thesis
    using first by blast
qed

theorem merge_segments_first_and_empty_witness:
  "merge_segments [(''10-12'', ''hello'')] = Inr [(''10-12'', ''hello'')] \<and>
   merge_segments [(''10-12'', ''hello''), (''12-14'', ''world'')] =
     Inr [(''10-14'', ''hello world'')] \<and>
   prefix ''hello'' (snd (hd [(''10-14'', ''hello world'')])) \<and>
   merge_segments ([(''10-12'', ''Hello'')] @ [(''12-14'', [])]) =
     Inr [(''10-12'', ''Hello''), (''12-14'', [])]"
proof -
  have run: "merge_segments ((''10-12'', ''hello'') # [(''12-14'', ''world'')]) =
      Inr [(''10-14'', ''hello world'')]"
    by (simp add: merge_segments_def islower_def code_def split1_def)
  have base: "merge_segments [(''10-12'', ''Hello'')] = Inr [(''10-12'', ''Hello'')]"
    by (simp add: merge_segments_def)
  note inst = merge_segments_first_and_empty
    [of "''10-12''" "''hello''" "[(''12-14'', ''world'')]" "[]" "[(''10-12'', ''Hello'')]"]
  from inst have one: "merge_segments [(''10-12'', ''hello'')] = Inr [(''10-12'', ''hello'')]"
    by blast
  from inst run have pre: "prefix ''hello'' (snd (hd [(''10-14'', ''hello world'')]))"
    by blast
  from merge_segments_first_and_empty
    [of "''12-14''" "[]" "[]" "[]" "[(''10-12'', ''Hello'')]"] base
  have emp: "merge_segments ([(''10-12'', ''Hello'')] @ [(''12-14'', [])]) =
      Inr [(''10-12'', ''Hello''), (''12-14'', [])]"
    by simp
  from one run pre emp show ?thesis by simp
qed

subsection \<open>The delimiter precondition\<close>

text \<open>
  C9. When every timerange of the input holds a \<open>-\<close>, \<open>merge_segments\<close> returns a
  result (no error is raised). When a fold is triggered on the output \<open>merged\<close> of a
  prefix \<open>xs\<close> of the input and the last output timerange holds no \<open>-\<close>, unpacking the
  start raises ValueError; when that one holds a \<open>-\<close> and the current timerange holds
  none, indexing the end raises IndexError; the error ends the whole run.
\<close>

theorem merge_segments_delimiter_precondition:
  "(list_all (\<lambda>seg. has_dash (fst seg)) segments \<longrightarrow>
      (\<exists>out. merge_segments segments = Inr out)) \<and>
   (merge_segments xs = Inr merged \<and> merged \<noteq> [] \<and> starts_lower text \<and>
    \<not> has_dash (fst (last merged)) \<longrightarrow>
      merge_segments (xs @ (timerange, text) # rest) = Inl ValueError) \<and>
   (merge_segments xs = Inr merged \<and> merged \<noteq> [] \<and> starts_lower text \<and>
    has_dash (fst (last merged)) \<and> \<not> has_dash timerange \<longrightarrow>
      merge_segments (xs @ (timerange, text) # rest) = Inl IndexError)"
proof (intro conjI impI)
  assume "list_all (\<lambda>seg. has_dash (fst seg)) segments"
  then show "\<exists>out. merge_segments segments = Inr out"
    using merge_loop_total [of "[]" segments] by (simp add: merge_segments_def)
next
  assume h: "merge_segments xs = Inr merged \<and> merged \<noteq> [] \<and> starts_lower text \<and>
    \<not> has_dash (fst (last merged))"
  then have st: "merge_step merged (timerange, text) = Inl ValueError"
    by (intro merge_step_no_start) simp_all
  from h have m: "merge_segments xs = Inr merged" by simp
  from merge_segments_fails_after [OF m st]
  show "merge_segments (xs @ (timerange, text) # rest) = Inl ValueError" .
next
  assume h: "merge_segments xs = Inr merged \<and> merged \<noteq> [] \<and> starts_lower text \<and>
    has_dash (fst (last merged)) \<and> \<not> has_dash timerange"
  then have st: "merge_step merged (timerange, text) = Inl IndexError"
    by (intro merge_step_no_end) simp_all
  from h have m: "merge_segments xs = Inr merged" by simp
  from merge_segments_fails_after [OF m st]
  show "merge_segments (xs @ (timerange, text) # rest) = Inl IndexError" .
qed

theorem merge_segments_delimiter_precondition_witness:
  "list_all (\<lambda>seg. has_dash (fst seg)) [(''10-12'', ''Hello''), (''12-14'', ''world'')] \<and>
   (\<exists>out. merge_segments [(''10-12'', ''Hello''), (''12-14'', ''world'')] = Inr out) \<and>
   merge_segments [(''10'', ''Hello'')] = Inr [(''10'', ''Hello'')] \<and>
   starts_lower ''world'' \<and> \<not> has_dash (fst (last [(''10'', ''Hello'')])) \<and>
   merge_segments ([(''10'', ''Hello'')] @ (''12-14'', ''world'') # []) = Inl ValueError \<and>
   merge_segments [(''10-12'', ''Hello'')] = Inr [(''10-12'', ''Hello'')] \<and>
   has_dash (fst (last [(''10-12'', ''Hello'')])) \<and> \<not> has_dash ''14'' \<and>
   merge_segments ([(''10-12'', ''Hello'')] @ (''14'', ''world'') # []) = Inl IndexError"
proof -
  have a: "list_all (\<lambda>seg. has_dash (fst seg)) [(''10-12'', ''Hello''), (''12-14'', ''world'')]"
    by (simp add: has_dash_def)
  have b: "merge_segments [(''10'', ''Hello'')] = Inr [(''10'', ''Hello'')] \<and>
      [(''10'', ''Hello'')] \<noteq> [] \<and> starts_lower ''world'' \<and>
      \<not> has_dash (fst (last [(''10'', ''Hello'')]))"
    by (simp add: merge_segments_def starts_lower_def islower_def code_def has_dash_def)
  have c: "merge_segments [(''10-12'', ''Hello'')] = Inr [(''10-12'', ''Hello'')] \<and>
      [(''10-12'', ''Hello'')] \<noteq> [] \<and> starts_lower ''world'' \<and>
      has_dash (fst (last [(''10-12'', ''Hello'')])) \<and> \<not> has_dash ''14''"
    by (simp add: merge_segments_def starts_lower_def islower_def code_def has_dash_def)
  from merge_segments_delimiter_precondition
    [of "[(''10-12'', ''Hello''), (''12-14'', ''world'')]" "[(''10'', ''Hello'')]"
        "[(''10'', ''Hello'')]" "''world''" "''12-14''" "[]"] a b
  have r1: "\<exists>out. merge_segments [(''10-12'', ''Hello''), (''12-14'', ''world'')] = Inr out"
    and r2: "merge_segments ([(''10'', ''Hello'')] @ (''12-14'', ''world'') # []) = Inl ValueError"
    by blast+
  from merge_segments_delimiter_precondition
    [of "[]" "[(''10-12'', ''Hello'')]" "[(''10-12'', ''Hello'')]" "''world''" "''14''" "[]"] c
  have r3: "merge_segments ([(''10-12'', ''Hello'')] @ (''14'', ''world'') # []) = Inl IndexError"
    by blast
  from a b c r1 r2 r3 show ?thesis by blast
qed

subsection \<open>An empty text as fold target\<close>

text \<open>
  C10. The empty-text guard looks at the current segment only. A segment with empty text
  is appended to the output, and when the next segment's text starts with a lowercase
  letter it is folded into that empty entry: the merged text is one space followed by
  the next segment's text.
\<close>

theorem merge_segments_empty_fold_target:
  assumes "merge_segments xs = Inr merged"
    and "has_dash r1" and "has_dash r2" and "starts_lower text"
  shows "merge_segments (xs @ [(r1, []), (r2, text)]) =
           Inr (merged @ [(range_start r1 @ ''-'' @ range_end r2, '' '' @ text)])"
proof -
  have "merge_segments (xs @ [(r1, [])]) = Inr (merged @ [(r1, [])])"
    using assms(1) by (simp add: merge_segments_snoc)
  moreover have "merge_step (merged @ [(r1, [])]) (r2, text) =
      Inr (butlast (merged @ [(r1, [])]) @
             [(range_start r1 @ ''-'' @ range_end r2, [] @ '' '' @ text)])"
    using assms by (intro merge_step_fold) (simp_all add: has_dash_def)
  ultimately have "merge_segments ((xs @ [(r1, [])]) @ [(r2, text)]) =
      Inr (merged @ [(range_start r1 @ ''-'' @ range_end r2, '' '' @ text)])"
    unfolding merge_segments_snoc [of "xs @ [(r1, [])]"] by simp
  then show ?thesis by simp
qed

theorem merge_segments_empty_fold_target_witness:
  "merge_segments [(''10-12'', ''Hello'')] = Inr [(''10-12'', ''Hello'')] \<and>
   has_dash ''12-14'' \<and> has_dash ''14-16'' \<and> starts_lower ''world'' \<and>
   merge_segments ([(''10-12'', ''Hello'')] @ [(''12-14'', []), (''14-16'', ''world'')]) =
     Inr [(''10-12'', ''Hello''), (''12-16'', '' world'')]"
proof -
  have a: "merge_segments [(''10-12'', ''Hello'')] = Inr [(''10-12'', ''Hello'')]"
    by (simp add: merge_segments_def)
  have b: "has_dash ''12-14''" and c: "has_dash ''14-16''"
    by (simp_all add: has_dash_def)
  have d: "starts_lower ''world''"
    by (simp add: starts_lower_def islower_def code_def)
  from merge_segments_empty_fold_target [OF a b c d] a b c d show ?thesis
    by (simp add: range_start_def range_end_def)
qed

section \<open>Properties of the regular expressions\<close>

lemma code_lt: "code c < 256"
  unfolding code_def by (metis of_char_mod_256 mod_less_divisor zero_less_numeral)

lemma code_char_of: "n < 256 \<Longrightarrow> code (char_of n) = n"
  by (simp add: code_def)

lemma is_word_lower: "is_word_char (lower_char c) = is_word_char c"
  using code_lt [of c]
  by (auto simp: is_word_char_def lower_char_def Let_def code_char_of)

lemma lower_char_idem: "lower_char (lower_char c) = lower_char c"
  using code_lt [of c]
  by (auto simp: lower_char_def Let_def code_char_of)

lemma is_word_key: "is_word_codepoint (ignorecase_key c) = is_word_codepoint c"
  by (cases c) (simp_all add: is_word_lower, simp_all add: is_word_char_def code_def)

lemma key_idem: "ignorecase_key (ignorecase_key c) = ignorecase_key c"
  by (cases c) (simp_all add: lower_char_idem, simp_all add: lower_char_def code_def)

lemma plain_key: "plain (ignorecase_key c)"
  by (cases c) (simp_all add: plain_def)

lemma lower_codepoint_plain: "plain c \<Longrightarrow> lower_codepoint c = [ignorecase_key c]"
  by (cases c) (simp_all add: plain_def)

lemma lower_plain: "plain_sentence s \<Longrightarrow> lower s = map ignorecase_key s"
  by (induction s) (simp_all add: lower_def plain_sentence_def lower_codepoint_plain)

lemma plain_map_key: "plain_sentence (map ignorecase_key s)"
  by (simp add: plain_sentence_def list_all_iff plain_key)

lemma plain_take_drop: "plain_sentence s \<Longrightarrow> plain_sentence (take n (drop i s))"
  unfolding plain_sentence_def list_all_iff
  by (meson in_set_dropD in_set_takeD)

lemma lit_at_Nil: "lit_at ic [] s i"
  by (simp add: lit_at_def)

lemma lit_at_Cons:
  "lit_at ic (c # cs) s i \<longleftrightarrow> i < length s \<and> char_matches ic c (s ! i) \<and> lit_at ic cs s (Suc i)"
proof (cases "i < length s")
  case True
  then have "drop i s = s ! i # drop (Suc i) s"
    by (simp add: Cons_nth_drop_Suc)
  with True show ?thesis by (simp add: lit_at_def)
next
  case False
  then show ?thesis by (simp add: lit_at_def)
qed

lemma lit_at_length: "lit_at ic w s i \<Longrightarrow> w \<noteq> [] \<Longrightarrow> i + length w \<le> length s"
  by (induction w arbitrary: i) (fastforce simp: lit_at_Cons)+

lemma lit_at_snoc:
  "lit_at ic (w @ [c]) s i \<longleftrightarrow>
     lit_at ic w s i \<and> i + length w < length s \<and> char_matches ic c (s ! (i + length w))"
  by (induction w arbitrary: i) (auto simp: lit_at_Cons lit_at_Nil)

lemma ends_lit: "ends ic s (lit w) i = (if lit_at ic w s i then [i + length w] else [])"
  by (induction w arbitrary: i) (simp_all add: lit_at_Cons lit_at_Nil)

lemma set_ends_lit: "set (ends ic s (lit w) i) = {j. j = i + length w \<and> lit_at ic w s i}"
  by (auto simp: ends_lit)

lemma set_ends_Lit:
  "set (ends ic s (Lit c) i) = {j. j = Suc i \<and> i < length s \<and> char_matches ic c (s ! i)}"
  by auto

lemma set_ends_WordBoundary:
  "set (ends ic s WordBoundary i) = {j. j = i \<and> word_before s i \<noteq> word_after s i}"
  by auto

lemma set_ends_StartOfString:
  "set (ends ic s StartOfString i) = {j. j = i \<and> i = 0}"
  by auto

lemma list_all2_map_eq:
  "list_all2 (\<lambda>x y. f y = g x) xs ys \<longleftrightarrow> map f ys = map g xs"
  by (induction xs arbitrary: ys) (auto simp: list_all2_Cons1)

lemma lit_at_key:
  "lit_at True w s i \<longleftrightarrow>
     map ignorecase_key (take (length w) (drop i s)) = map (\<lambda>c. Latin1 (lower_char c)) w"
  by (simp add: lit_at_def char_matches_def [abs_def] list_all2_map_eq)

lemma lit_at_lower:
  assumes "plain_sentence s" and "map lower_char w = w"
  shows "lit_at True w s i \<longleftrightarrow> lower (take (length w) (drop i s)) = map Latin1 w"
proof -
  have "map (\<lambda>c. Latin1 (lower_char c)) w = map Latin1 (map lower_char w)"
    by (simp add: comp_def)
  then have eq: "map (\<lambda>c. Latin1 (lower_char c)) w = map Latin1 w"
    unfolding assms(2) .
  show ?thesis
    unfolding lit_at_key eq lower_plain [OF plain_take_drop [OF assms(1)]] ..
qed

lemma lit_at_map_key: "lit_at True w (map ignorecase_key s) i \<longleftrightarrow> lit_at True w s i"
  by (simp add: lit_at_key drop_map take_map key_idem comp_def)

lemma lit_at_word_chars:
  assumes "lit_at True w s i" and "w \<noteq> []"
    and "is_word_char (hd w)" and "is_word_char (last w)"
  shows "word_after s i \<and> word_before s (i + length w)"
proof -
  from assms(1,2) have len: "i + length w \<le> length s" by (rule lit_at_length)
  have word: "is_word_codepoint x = is_word_char c"
    if "ignorecase_key x = Latin1 (lower_char c)" for x c
    using that is_word_key [of x] by (simp add: is_word_lower)
  obtain c cs where w: "w = c # cs" using assms(2) by (cases w) auto
  from assms(1) have "ignorecase_key (s ! i) = Latin1 (lower_char c)"
    by (simp add: w lit_at_Cons char_matches_def)
  then have "is_word_codepoint (s ! i) = is_word_char c"
    by (rule word)
  with assms(3) len w have first: "word_after s i"
    by (simp add: word_after_def)
  obtain ds d where w': "w = ds @ [d]" using assms(2) by (cases w rule: rev_cases) auto
  from assms(1) have "ignorecase_key (s ! (i + length ds)) = Latin1 (lower_char d)"
    by (simp add: w' lit_at_snoc char_matches_def)
  then have "is_word_codepoint (s ! (i + length ds)) = is_word_char d"
    by (rule word)
  with assms(4) w' have "word_before s (i + length w)"
    by (simp add: word_before_def)
  with first show ?thesis by simp
qed

lemma whole_word_regex:
  assumes R: "\<And>i j. j \<in> set (ends True s R i) \<longleftrightarrow>
                (\<exists>w \<in> set ws. j = i + length w \<and> lit_at True w s i)"
    and ws: "\<And>w. w \<in> set ws \<Longrightarrow>
               w \<noteq> [] \<and> is_word_char (hd w) \<and> is_word_char (last w)"
  shows "ends True s (Cat WordBoundary (Cat (Group R) WordBoundary)) i \<noteq> [] \<longleftrightarrow>
           (\<exists>w \<in> set ws. matches_word_at s w i)"
proof -
  have "ends True s (Cat WordBoundary (Cat (Group R) WordBoundary)) i \<noteq> [] \<longleftrightarrow>
      (\<exists>j. j \<in> set (ends True s (Cat WordBoundary (Cat (Group R) WordBoundary)) i))"
    by (metis empty_iff empty_set ex_in_conv set_empty)
  also have "\<dots> \<longleftrightarrow>
      (\<exists>w \<in> set ws. lit_at True w s i \<and> word_before s i \<noteq> word_after s i \<and>
                     word_before s (i + length w) \<noteq> word_after s (i + length w))"
    by (simp add: R set_ends_WordBoundary del: ends.simps(7)) blast
  also have "\<dots> \<longleftrightarrow> (\<exists>w \<in> set ws. matches_word_at s w i)"
  proof (intro bex_cong refl)
    fix w assume w: "w \<in> set ws"
    show "(lit_at True w s i \<and> word_before s i \<noteq> word_after s i \<and>
           word_before s (i + length w) \<noteq> word_after s (i + length w)) \<longleftrightarrow>
          matches_word_at s w i"
      using ws [OF w] lit_at_word_chars [of w s i]
      by (auto simp: matches_word_at_def)
  qed
  finally show ?thesis .
qed

lemma upto_length: "i \<in> set [0..<Suc (length s)] \<longleftrightarrow> i \<le> length s"
  by (simp del: upt_Suc add: less_Suc_eq_le)

lemma re_search_iff:
  "re_search (r, ic) s \<noteq> None \<longleftrightarrow> (\<exists>i \<le> length s. ends ic s r i \<noteq> [])"
proof -
  have m: "match_at (r, ic) s i \<noteq> None \<longleftrightarrow> ends ic s r i \<noteq> []" for i
    by (simp add: match_at_def split: list.splits)
  show ?thesis
  proof (cases "List.find (\<lambda>i. match_at (r, ic) s i \<noteq> None) [0..<Suc (length s)]")
    case None
    then have "\<not> (\<exists>i. i \<in> set [0..<Suc (length s)] \<and> match_at (r, ic) s i \<noteq> None)"
      unfolding find_None_iff .
    then have "\<not> (\<exists>i \<le> length s. ends ic s r i \<noteq> [])"
      unfolding upto_length m by blast
    moreover have "re_search (r, ic) s = None"
      unfolding re_search_def None by simp
    ultimately show ?thesis by simp
  next
    case (Some i)
    then have "i \<in> set [0..<Suc (length s)]" and found: "match_at (r, ic) s i \<noteq> None"
      unfolding find_Some_iff by (metis nth_mem)+
    then have "i \<le> length s" by (simp only: upto_length)
    moreover have "re_search (r, ic) s = match_at (r, ic) s i"
      unfolding re_search_def Some by simp
    ultimately show ?thesis
      using found m by auto
  qed
qed

lemma re_search_pattern_iff:
  "re_search p s \<noteq> None \<longleftrightarrow> (\<exists>i \<le> length s. ends (snd p) s (fst p) i \<noteq> [])"
  using re_search_iff [of "fst p" "snd p" s] by simp

lemma contains_word_iff:
  "contains_word ws s \<longleftrightarrow> (\<exists>i \<le> length s. \<exists>w \<in> set ws. whole_word_at s w i)"
  unfolding contains_word_def list_ex_iff Bex_def upto_length by blast


lemma word_before_map_key:
  "i \<le> length s \<Longrightarrow> word_before (map ignorecase_key s) i = word_before s i"
  by (cases i) (simp_all add: word_before_def is_word_key)

lemma word_after_map_key: "word_after (map ignorecase_key s) j = word_after s j"
  by (cases "j < length s") (simp_all add: word_after_def is_word_key)

lemma matches_word_at_map_key:
  "i \<le> length s \<Longrightarrow> matches_word_at (map ignorecase_key s) w i = matches_word_at s w i"
  by (simp add: matches_word_at_def lit_at_map_key word_before_map_key word_after_map_key)

lemma matches_word_at_plain:
  "plain_sentence s \<Longrightarrow> map lower_char w = w \<Longrightarrow>
     matches_word_at s w i = whole_word_at s w i"
  by (simp add: matches_word_at_def whole_word_at_def lit_at_lower)

lemmas set_ends = set_ends_lit set_ends_Lit set_ends_WordBoundary set_ends_StartOfString

lemma verbs_words:
  "w \<in> set assertion_verbs \<Longrightarrow>
     w \<noteq> [] \<and> map lower_char w = w \<and> is_word_char (hd w) \<and> is_word_char (last w)"
  by (auto simp: assertion_verbs_def lower_char_def is_word_char_def code_def)

lemma keywords_words:
  "w \<in> set domain_keywords \<Longrightarrow>
     w \<noteq> [] \<and> map lower_char w = w \<and> is_word_char (hd w) \<and> is_word_char (last w)"
  by (auto simp: domain_keywords_def lower_char_def is_word_char_def code_def)

lemma verb_search:
  "bool_of_match (re_search VERB_PATTERN s) \<longleftrightarrow>
     (\<exists>i \<le> length s. \<exists>w \<in> set assertion_verbs. matches_word_at s w i)"
proof -
  have "ends True s (fst VERB_PATTERN) i \<noteq> [] \<longleftrightarrow>
      (\<exists>w \<in> set assertion_verbs. matches_word_at s w i)" for i
    unfolding VERB_PATTERN_def re_compile_def fst_conv
  proof (rule whole_word_regex)
    fix i j
    show "j \<in> set (ends True s
            (alts [lit ''lose'', lit ''gain'', lit ''burn'', lit ''get'',
                   Cat (lit ''make'') (Opt (Lit CHR ''s'')),
                   lit ''is'', lit ''will'', lit ''can'', lit ''do'']) i) \<longleftrightarrow>
          (\<exists>w \<in> set assertion_verbs. j = i + length w \<and> lit_at True w s i)"
      using lit_at_snoc [of True "''make''" "CHR ''s''" s i]
      by (simp add: set_ends assertion_verbs_def del: lit.simps ends.simps(2)) blast
  qed (use verbs_words in blast)
  moreover have "snd VERB_PATTERN = True"
    by (simp add: VERB_PATTERN_def re_compile_def)
  ultimately show ?thesis
    unfolding bool_of_match_def re_search_pattern_iff by simp
qed

lemma keyword_search:
  "bool_of_match (re_search default_keyword_pattern s) \<longleftrightarrow>
     (\<exists>i \<le> length s. \<exists>w \<in> set domain_keywords. matches_word_at s w i)"
proof -
  have "ends True s (fst default_keyword_pattern) i \<noteq> [] \<longleftrightarrow>
      (\<exists>w \<in> set domain_keywords. matches_word_at s w i)" for i
    unfolding default_keyword_pattern_def re_compile_def fst_conv
  proof (rule whole_word_regex)
    fix i j
    show "j \<in> set (ends True s
            (alts [Cat (lit ''calorie'') (Opt (Lit CHR ''s'')),
                   Cat (lit ''pound'') (Opt (Group (Lit CHR ''s''))),
                   lit ''weight'', lit ''energy'']) i) \<longleftrightarrow>
          (\<exists>w \<in> set domain_keywords. j = i + length w \<and> lit_at True w s i)"
      using lit_at_snoc [of True "''calorie''" "CHR ''s''" s i]
        lit_at_snoc [of True "''pound''" "CHR ''s''" s i]
      by (simp add: set_ends domain_keywords_def del: lit.simps ends.simps(2)) blast
  qed (use keywords_words in blast)
  moreover have "snd default_keyword_pattern = True"
    by (simp add: default_keyword_pattern_def re_compile_def)
  ultimately show ?thesis
    unfolding bool_of_match_def re_search_pattern_iff by simp
qed

lemma keyword_search_plain:
  assumes "plain_sentence s"
  shows "bool_of_match (re_search default_keyword_pattern s) \<longleftrightarrow>
           contains_word domain_keywords s"
  unfolding keyword_search contains_word_iff
  using matches_word_at_plain [OF assms] keywords_words by blast

lemma verb_search_lower:
  assumes "plain_sentence s"
  shows "bool_of_match (re_search VERB_PATTERN (lower s)) \<longleftrightarrow>
           contains_word assertion_verbs s"
proof -
  have "matches_word_at (map ignorecase_key s) w i = whole_word_at s w i"
    if "i \<le> length s" and "w \<in> set assertion_verbs" for w i
    using that matches_word_at_map_key [of i s w] matches_word_at_plain [OF assms, of w i]
      verbs_words [of w] by simp
  then show ?thesis
    unfolding verb_search contains_word_iff lower_plain [OF assms] by auto
qed

lemma re_match_pattern_iff:
  "bool_of_match (re_match p s) \<longleftrightarrow> (\<exists>j. j \<in> set (ends (snd p) s (fst p) 0))"
  by (cases "ends (snd p) s (fst p) 0") (auto simp: bool_of_match_def re_match_def match_at_def)

lemma intro_alts:
  "j \<in> set (ends True s
      (alts [lit ''one of'',
             Cat (lit ''that'') (Cat (Opt (Lit (CHR 0x27))) (Lit CHR ''s'')),
             lit ''my name'',
             lit ''that's'']) i) \<longleftrightarrow>
   (\<exists>p \<in> set intro_phrases. j = i + length p \<and> lit_at True p s i)"
  using lit_at_snoc [of True "''that'' @ [CHR 0x27]" "CHR ''s''" s i]
    lit_at_snoc [of True "''that''" "CHR 0x27" s i]
    lit_at_snoc [of True "''that''" "CHR ''s''" s i]
  by (simp add: set_ends intro_phrases_def del: lit.simps ends.simps(2)) blast

lemma intro_alts_deduplicated:
  "j \<in> set (ends True s
      (alts [lit ''one of'',
             Cat (lit ''that'') (Cat (Opt (Lit (CHR 0x27))) (Lit CHR ''s'')),
             lit ''my name'']) i) \<longleftrightarrow>
   (\<exists>p \<in> set intro_phrases. j = i + length p \<and> lit_at True p s i)"
  using lit_at_snoc [of True "''that'' @ [CHR 0x27]" "CHR ''s''" s i]
    lit_at_snoc [of True "''that''" "CHR 0x27" s i]
    lit_at_snoc [of True "''that''" "CHR ''s''" s i]
  by (simp add: set_ends intro_phrases_def del: lit.simps ends.simps(2)) blast

lemma intro_match:
  "bool_of_match (re_match INTRO_PATTERN s) \<longleftrightarrow>
     (\<exists>p \<in> set intro_phrases. lit_at True p s 0)"
  unfolding re_match_pattern_iff
  by (simp add: INTRO_PATTERN_def re_compile_def set_ends_StartOfString intro_alts
      del: lit.simps alts.simps ends.simps(2,8)) blast

lemma intro_match_deduplicated:
  "bool_of_match (re_match INTRO_PATTERN_deduplicated s) \<longleftrightarrow>
     (\<exists>p \<in> set intro_phrases. lit_at True p s 0)"
  unfolding re_match_pattern_iff
  by (simp add: INTRO_PATTERN_deduplicated_def re_compile_def set_ends_StartOfString
      intro_alts_deduplicated del: lit.simps alts.simps ends.simps(2,8)) blast

lemma take_prefix: "take (length p) s = p \<longleftrightarrow> prefix p s"
  by (metis append_eq_conv_conj prefix_def)

lemma intro_phrases_lower: "p \<in> set intro_phrases \<Longrightarrow> map lower_char p = p"
  by (auto simp: intro_phrases_def lower_char_def code_def)

lemma lit_at_prefix:
  assumes "map lower_char p = p"
  shows "lit_at True p (map ignorecase_key s) 0 \<longleftrightarrow>
           prefix (map Latin1 p) (map ignorecase_key s)"
proof -
  have "lower (take (length p) (map ignorecase_key s)) = take (length p) (map ignorecase_key s)"
    using lower_plain [OF plain_map_key, of "take (length p) s"]
    by (simp add: take_map key_idem comp_def)
  then have "lit_at True p (map ignorecase_key s) 0 \<longleftrightarrow>
      take (length p) (map ignorecase_key s) = map Latin1 p"
    using lit_at_lower [OF plain_map_key assms, of s 0] by simp
  then show ?thesis
    using take_prefix [of "map Latin1 p" "map ignorecase_key s"] by simp
qed

lemma intro_match_lower:
  assumes "plain_sentence s"
  shows "bool_of_match (re_match INTRO_PATTERN (lower s)) \<longleftrightarrow>
           starts_with_any intro_phrases (lower s)"
  unfolding intro_match starts_with_any_def list_ex_iff lower_plain [OF assms]
  using lit_at_prefix intro_phrases_lower by blast

lemma lower_ascii_plain:
  "lower x = map Latin1 w \<Longrightarrow> plain_sentence x"
proof (induction x arbitrary: w)
  case Nil
  show ?case by (simp add: plain_sentence_def)
next
  case (Cons c cs)
  show ?case
  proof (cases c)
    case (Latin1 a)
    with Cons.prems obtain w' where "lower cs = map Latin1 w'"
      by (cases w) (auto simp: lower_def)
    from Cons.IH [OF this] Latin1 show ?thesis
      by (simp add: plain_sentence_def plain_def)
  next
    case U0130
    with Cons.prems show ?thesis
      by (cases w; cases "tl w") (auto simp: lower_def)
  next
    case U0131
    with Cons.prems show ?thesis by (cases w) (auto simp: lower_def)
  next
    case U017F
    with Cons.prems show ?thesis by (cases w) (auto simp: lower_def)
  next
    case U0307
    with Cons.prems show ?thesis by (cases w) (auto simp: lower_def)
  next
    case U212A
    with Cons.prems obtain w' where "lower cs = map Latin1 w'"
      by (cases w) (auto simp: lower_def)
    from Cons.IH [OF this] U212A show ?thesis
      by (simp add: plain_sentence_def plain_def)
  qed
qed

lemma whole_word_matches:
  assumes "whole_word_at s w i" and "map lower_char w = w"
  shows "matches_word_at s w i"
proof -
  let ?x = "take (length w) (drop i s)"
  from assms(1) have low: "lower ?x = map Latin1 w"
    by (simp add: whole_word_at_def)
  then have "plain_sentence ?x" by (rule lower_ascii_plain)
  from lower_plain [OF this] low have "map ignorecase_key ?x = map Latin1 w"
    by simp
  moreover have "map (\<lambda>c. Latin1 (lower_char c)) w = map Latin1 (map lower_char w)"
    by (simp add: comp_def)
  ultimately have "lit_at True w s i"
    unfolding lit_at_key assms(2) by simp
  with assms(1) show ?thesis
    by (simp add: matches_word_at_def whole_word_at_def)
qed

lemma contains_keyword_search:
  "contains_word domain_keywords s \<Longrightarrow> bool_of_match (re_search default_keyword_pattern s)"
  unfolding keyword_search contains_word_iff
  using whole_word_matches keywords_words by blast

lemma contains_word_mono:
  "set ws \<subseteq> set ws' \<Longrightarrow> contains_word ws s \<Longrightarrow> contains_word ws' s"
  unfolding contains_word_iff by blast

section \<open>Properties of load_transcript and filter_claims\<close>

lemma filter_loop_filter:
  "filter_loop allowed kp claims rs =
     claims @ filter (\<lambda>(t, s, e). list_ex (\<lambda>(_, label). label \<in> allowed) e \<or>
                               bool_of_match (re_search kp s)) rs"
proof (induction rs arbitrary: claims)
  case Nil
  show ?case by simp
next
  case (Cons r rs)
  obtain t s e where r: "r = (t, s, e)" by (cases r)
  show ?case
    unfolding r
    by (cases "list_ex (\<lambda>(_, label). label \<in> allowed) e \<or> bool_of_match (re_search kp s)")
      (simp_all add: Cons.IH)
qed

lemma in_dropWhile: "x \<in> set xs \<Longrightarrow> \<not> P x \<Longrightarrow> x \<in> set (dropWhile P xs)"
  by (induction xs) auto

lemma colon_not_space: "\<not> isspace (CHR '':'')"
  by (simp add: isspace_def code_def)

lemma colon_in_strip: "CHR '':'' \<in> set (strip l) \<longleftrightarrow> CHR '':'' \<in> set l"
proof
  assume "CHR '':'' \<in> set (strip l)"
  then have "CHR '':'' \<in> set (rev (dropWhile isspace (rev l)))"
    unfolding strip_def by (rule set_dropWhileD)
  then have "CHR '':'' \<in> set (dropWhile isspace (rev l))" by simp
  then have "CHR '':'' \<in> set (rev l)" by (rule set_dropWhileD)
  then show "CHR '':'' \<in> set l" by simp
next
  assume "CHR '':'' \<in> set l"
  then have "CHR '':'' \<in> set (rev l)" by simp
  then have "CHR '':'' \<in> set (dropWhile isspace (rev l))"
    by (rule in_dropWhile) (rule colon_not_space)
  then have "CHR '':'' \<in> set (rev (dropWhile isspace (rev l)))" by simp
  then show "CHR '':'' \<in> set (strip l)"
    unfolding strip_def by (rule in_dropWhile) (rule colon_not_space)
qed

lemma load_loop_char:
  "load_loop segments ls =
     (if list_ex malformed ls then Inl ValueError
      else Inr (segments @ map parse_line (filter (\<lambda>l. strip l \<noteq> []) ls)))"
proof (induction ls arbitrary: segments)
  case Nil
  show ?case by simp
next
  case (Cons l ls)
  show ?case
  proof (cases "strip l = []")
    case True
    then show ?thesis by (simp add: Cons.IH malformed_def)
  next
    case False
    show ?thesis
    proof (cases "CHR '':'' \<in> set l")
      case True
      with False show ?thesis
        by (simp add: Cons.IH malformed_def split1_def colon_in_strip parse_line_def Let_def)
    next
      case no: False
      with False show ?thesis
        by (simp add: malformed_def split1_def colon_in_strip Let_def)
    qed
  qed
qed

lemma filter_claims_filter:
  "filter_claims entity_results allowed_labels keyword_pattern =
     filter (\<lambda>(t, s, e).
        list_ex (\<lambda>(_, label). label \<in> (case allowed_labels of None \<Rightarrow> default_allowed_labels | Some a \<Rightarrow> a)) e \<or>
        bool_of_match (re_search (case keyword_pattern of None \<Rightarrow> default_keyword_pattern | Some p \<Rightarrow> p) s))
       entity_results"
  by (simp add: filter_claims_def filter_loop_filter)

lemma has_label_list_ex:
  "list_ex (\<lambda>(_, label). label \<in> labels) ents \<longleftrightarrow> has_label labels ents"
  by (auto simp: has_label_def list_ex_iff)

section \<open>The precision filter\<close>

text \<open>
  C2. For a sentence with none of U+0130, U+0131 and U+017F: \<open>is_strong_claim\<close> returns
  false when the lowercased sentence starts with one of the intro phrases \<open>one of\<close>,
  \<open>that's\<close>, \<open>thats\<close>, \<open>my name\<close>; otherwise it returns true exactly when the sentence
  contains, as a whole word and whatever the case, one of the verbs lose, gain, burn,
  get, make, makes, is, will, can, do.
\<close>

theorem is_strong_claim_rule:
  assumes "plain_sentence sent"
  shows "is_strong_claim sent =
     (if starts_with_any intro_phrases (lower sent) then False
      else contains_word assertion_verbs sent)"
  unfolding is_strong_claim_def is_strong_claim_with_def Let_def
    intro_match_lower [OF assms] verb_search_lower [OF assms]
  by simp

theorem is_strong_claim_rule_witness:
  "plain_sentence (map Latin1 ''You CAN burn 200 calories'') \<and>
   is_strong_claim (map Latin1 ''You CAN burn 200 calories'') \<and>
   plain_sentence (map Latin1 ''That's what you can do'') \<and>
   contains_word assertion_verbs (map Latin1 ''That's what you can do'') \<and>
   \<not> is_strong_claim (map Latin1 ''That's what you can do'') \<and>
   plain_sentence (map Latin1 ''This contains 200 calories'') \<and>
   \<not> is_strong_claim (map Latin1 ''This contains 200 calories'')"
proof -
  have p: "plain_sentence (map Latin1 ''You CAN burn 200 calories'')"
    "plain_sentence (map Latin1 ''That's what you can do'')"
    "plain_sentence (map Latin1 ''This contains 200 calories'')"
    by code_simp+
  have a: "\<not> starts_with_any intro_phrases (lower (map Latin1 ''You CAN burn 200 calories'')) \<and>
      contains_word assertion_verbs (map Latin1 ''You CAN burn 200 calories'')"
    by code_simp
  have b: "starts_with_any intro_phrases (lower (map Latin1 ''That's what you can do'')) \<and>
      contains_word assertion_verbs (map Latin1 ''That's what you can do'')"
    by code_simp
  have c: "\<not> starts_with_any intro_phrases (lower (map Latin1 ''This contains 200 calories'')) \<and>
      \<not> contains_word assertion_verbs (map Latin1 ''This contains 200 calories'')"
    by code_simp
  from a b c p is_strong_claim_rule [OF p(1)] is_strong_claim_rule [OF p(2)]
    is_strong_claim_rule [OF p(3)]
  show ?thesis by simp
qed

text \<open>
  Without the restriction the rule fails. \<open>IGNORECASE\<close> matches U+017F as \<open>s\<close>, so a
  sentence starting with \<open>that\<close>, U+017F is taken for an intro although its lowercased
  form starts with none of the phrases; it matches U+0131 as \<open>i\<close>, so U+0131 followed by
  \<open>s\<close> counts as the verb \<open>is\<close>; and \<open>str.lower\<close> puts U+0307, which is no word character,
  after the \<open>i\<close> it makes of U+0130, so \<open>can\<close> right after U+0130 becomes a whole word.
\<close>

theorem is_strong_claim_rule_counterexample:
  "\<not> is_strong_claim (map Latin1 ''that'' @ [U017F] @ map Latin1 '' it is'') \<and>
   \<not> starts_with_any intro_phrases (lower (map Latin1 ''that'' @ [U017F] @ map Latin1 '' it is'')) \<and>
   contains_word assertion_verbs (map Latin1 ''that'' @ [U017F] @ map Latin1 '' it is'') \<and>
   is_strong_claim ([U0131] @ map Latin1 ''s good'') \<and>
   \<not> contains_word assertion_verbs ([U0131] @ map Latin1 ''s good'') \<and>
   is_strong_claim ([U0130] @ map Latin1 ''can'') \<and>
   \<not> contains_word assertion_verbs ([U0130] @ map Latin1 ''can'')"
  by code_simp

text \<open>
  C8. The second \<open>that's\<close> alternative of the intro pattern changes nothing:
  \<open>is_strong_claim\<close> equals, on every sentence, the same function run with the intro
  pattern \<open>^(one of|that'?s|my name)\<close>.
\<close>

theorem duplicated_intro_alternative:
  "is_strong_claim sent = is_strong_claim_with INTRO_PATTERN_deduplicated sent"
  unfolding is_strong_claim_def is_strong_claim_with_def Let_def
    intro_match intro_match_deduplicated
  by simp

theorem duplicated_intro_alternative_witness:
  "is_strong_claim (map Latin1 ''That's 200 calories'') =
     is_strong_claim_with INTRO_PATTERN_deduplicated (map Latin1 ''That's 200 calories'') \<and>
   \<not> is_strong_claim_with INTRO_PATTERN_deduplicated (map Latin1 ''That's 200 calories'') \<and>
   is_strong_claim_with INTRO_PATTERN_deduplicated (map Latin1 ''You can burn 200 calories'')"
proof -
  have a: "\<not> is_strong_claim (map Latin1 ''That's 200 calories'')"
    by code_simp
  have b: "is_strong_claim (map Latin1 ''You can burn 200 calories'')"
    by code_simp
  from a b duplicated_intro_alternative [of "map Latin1 ''That's 200 calories''"]
    duplicated_intro_alternative [of "map Latin1 ''You can burn 200 calories''"]
  show ?thesis by simp
qed

section \<open>The broad filter\<close>

text \<open>
  C3. With both parameters at their defaults and sentences with none of U+0130, U+0131
  and U+017F, \<open>filter_claims\<close> keeps, in order, exactly the triples whose entity list has
  a label among QUANTITY, CARDINAL, PERCENT or whose sentence contains, as a whole word
  and whatever the case, one of calorie, calories, pound, pounds, weight, energy. A
  sentence containing \<open>calories\<close> is kept and a sentence with a CARDINAL entity is kept,
  whatever its code points; a sentence with neither, and none of the three code points,
  is dropped.
\<close>

theorem filter_claims_default:
  "(list_all (\<lambda>(timerange, sent, ents). plain_sentence sent) entity_results \<longrightarrow>
      filter_claims entity_results None None = filter retained entity_results) \<and>
   (contains_word [''calories''] sent \<longrightarrow>
      filter_claims [(timerange, sent, ents)] None None = [(timerange, sent, ents)]) \<and>
   ((entity_text, ''CARDINAL'') \<in> set ents \<longrightarrow>
      filter_claims [(timerange, sent, ents)] None None = [(timerange, sent, ents)]) \<and>
   (plain_sentence sent \<and> \<not> has_label default_allowed_labels ents \<and>
    \<not> contains_word domain_keywords sent \<longrightarrow>
      filter_claims [(timerange, sent, ents)] None None = [])"
proof -
  have eq: "filter_claims rs None None = filter retained rs"
    if "list_all (\<lambda>(timerange, sent, ents). plain_sentence sent) rs" for rs
    unfolding filter_claims_filter
    using that
    by (intro filter_cong refl)
      (auto simp: retained_def has_label_list_ex keyword_search_plain list_all_iff)
  have kw: "bool_of_match (re_search default_keyword_pattern sent)"
    if "contains_word [''calories''] sent"
    using that contains_word_mono [of "[''calories'']" domain_keywords sent]
      contains_keyword_search [of sent]
    by (simp add: domain_keywords_def)
  have card: "has_label default_allowed_labels ents"
    if "(entity_text, ''CARDINAL'') \<in> set ents"
    using that by (auto simp: has_label_def default_allowed_labels_def)
  have one: "filter_claims [(timerange, sent, ents)] None None =
      (if has_label default_allowed_labels ents \<or>
          bool_of_match (re_search default_keyword_pattern sent)
       then [(timerange, sent, ents)] else [])"
    by (simp add: filter_claims_filter has_label_list_ex)
  show ?thesis
    using eq kw card by (auto simp: one keyword_search_plain)
qed

theorem filter_claims_default_witness:
  "plain_sentence (map Latin1 ''Burn 200 Calories fast'') \<and>
   contains_word [''calories''] (map Latin1 ''Burn 200 Calories fast'') \<and>
   filter_claims [(''0.0-3.0'', map Latin1 ''Burn 200 Calories fast'', [])] None None =
     [(''0.0-3.0'', map Latin1 ''Burn 200 Calories fast'', [])] \<and>
   filter_claims [(''3.0-5.0'', map Latin1 ''I ate 5 apples'', [(''5'', ''CARDINAL'')])] None None =
     [(''3.0-5.0'', map Latin1 ''I ate 5 apples'', [(''5'', ''CARDINAL'')])] \<and>
   plain_sentence (map Latin1 ''Bob likes caloriess'') \<and>
   \<not> has_label default_allowed_labels [(''Bob'', ''PERSON'')] \<and>
   \<not> contains_word domain_keywords (map Latin1 ''Bob likes caloriess'') \<and>
   filter_claims [(''5.0-6.0'', map Latin1 ''Bob likes caloriess'', [(''Bob'', ''PERSON'')])]
     None None = [] \<and>
   filter_claims
     [(''0.0-3.0'', map Latin1 ''Burn 200 Calories fast'', []),
      (''5.0-6.0'', map Latin1 ''Bob likes caloriess'', [(''Bob'', ''PERSON'')])] None None =
     [(''0.0-3.0'', map Latin1 ''Burn 200 Calories fast'', [])]"
proof -
  have a: "contains_word [''calories''] (map Latin1 ''Burn 200 Calories fast'')"
    by code_simp
  have b: "(''5'', ''CARDINAL'') \<in> set [(''5'', ''CARDINAL'')]"
    by simp
  have c: "plain_sentence (map Latin1 ''Bob likes caloriess'') \<and>
      \<not> has_label default_allowed_labels [(''Bob'', ''PERSON'')] \<and>
      \<not> contains_word domain_keywords (map Latin1 ''Bob likes caloriess'')"
    by code_simp
  have d: "plain_sentence (map Latin1 ''Burn 200 Calories fast'')"
    by code_simp
  have e: "list_all (\<lambda>(timerange, sent, ents). plain_sentence sent)
     [(''0.0-3.0'', map Latin1 ''Burn 200 Calories fast'', []),
      (''5.0-6.0'', map Latin1 ''Bob likes caloriess'', [(''Bob'', ''PERSON'')])]"
    using c d by simp
  have f: "filter retained
     [(''0.0-3.0'', map Latin1 ''Burn 200 Calories fast'', []),
      (''5.0-6.0'', map Latin1 ''Bob likes caloriess'', [(''Bob'', ''PERSON'')])] =
     [(''0.0-3.0'', map Latin1 ''Burn 200 Calories fast'', [])]"
    by code_simp
  from a filter_claims_default
    [of "[]" "map Latin1 ''Burn 200 Calories fast''" "''0.0-3.0''" "[]" "[]"]
  have r1: "filter_claims [(''0.0-3.0'', map Latin1 ''Burn 200 Calories fast'', [])] None None =
     [(''0.0-3.0'', map Latin1 ''Burn 200 Calories fast'', [])]"
    by blast
  from b filter_claims_default
    [of "[]" "map Latin1 ''I ate 5 apples''" "''3.0-5.0''" "[(''5'', ''CARDINAL'')]" "''5''"]
  have r2: "filter_claims [(''3.0-5.0'', map Latin1 ''I ate 5 apples'', [(''5'', ''CARDINAL'')])] None None =
     [(''3.0-5.0'', map Latin1 ''I ate 5 apples'', [(''5'', ''CARDINAL'')])]"
    by blast
  from c filter_claims_default
    [of "[]" "map Latin1 ''Bob likes caloriess''" "''5.0-6.0''" "[(''Bob'', ''PERSON'')]" "[]"]
  have r3: "filter_claims [(''5.0-6.0'', map Latin1 ''Bob likes caloriess'', [(''Bob'', ''PERSON'')])]
      None None = []"
    by blast
  from e f filter_claims_default
    [of "[(''0.0-3.0'', map Latin1 ''Burn 200 Calories fast'', []),
          (''5.0-6.0'', map Latin1 ''Bob likes caloriess'', [(''Bob'', ''PERSON'')])]"
        "[]" "[]" "[]" "[]"]
  have r4: "filter_claims
     [(''0.0-3.0'', map Latin1 ''Burn 200 Calories fast'', []),
      (''5.0-6.0'', map Latin1 ''Bob likes caloriess'', [(''Bob'', ''PERSON'')])] None None =
     [(''0.0-3.0'', map Latin1 ''Burn 200 Calories fast'', [])]"
    by metis
  from a c d r1 r2 r3 r4 show ?thesis by blast
qed

text \<open>
  Without the restriction the rule fails: \<open>IGNORECASE\<close> matches U+0131 as \<open>i\<close>, so a
  sentence spelling \<open>weight\<close> with U+0131 is kept, although it has no allowed label and
  contains none of the keywords.
\<close>

theorem filter_claims_default_counterexample:
  "filter_claims [(''0-1'', map Latin1 ''we'' @ [U0131] @ map Latin1 ''ght loss'', [])] None None =
     [(''0-1'', map Latin1 ''we'' @ [U0131] @ map Latin1 ''ght loss'', [])] \<and>
   \<not> has_label default_allowed_labels [] \<and>
   \<not> contains_word domain_keywords (map Latin1 ''we'' @ [U0131] @ map Latin1 ''ght loss'')"
  by code_simp

text \<open>
  C7. With an empty set of allowed labels passed explicitly and the default keyword
  pattern, \<open>filter_claims\<close> keeps exactly the triples whose sentence matches the keyword
  pattern: the empty set is used as it is, not replaced by the default labels. For
  sentences with none of U+0130, U+0131 and U+017F these are the triples whose sentence
  contains a keyword as a whole word.
\<close>

theorem filter_claims_empty_labels:
  "filter_claims entity_results (Some {}) None =
     filter (\<lambda>(timerange, sent, ents). bool_of_match (re_search default_keyword_pattern sent))
       entity_results \<and>
   (list_all (\<lambda>(timerange, sent, ents). plain_sentence sent) entity_results \<longrightarrow>
      filter_claims entity_results (Some {}) None =
        filter (\<lambda>(timerange, sent, ents). contains_word domain_keywords sent) entity_results)"
proof -
  have "list_ex (\<lambda>(_, label). label \<in> {}) e = False" for e :: "entity list"
    by (simp add: list_ex_iff)
  then have first: "filter_claims entity_results (Some {}) None =
     filter (\<lambda>(timerange, sent, ents). bool_of_match (re_search default_keyword_pattern sent))
       entity_results"
    unfolding filter_claims_filter by simp
  have "filter (\<lambda>(timerange, sent, ents). bool_of_match (re_search default_keyword_pattern sent))
       entity_results =
     filter (\<lambda>(timerange, sent, ents). contains_word domain_keywords sent) entity_results"
    if "list_all (\<lambda>(timerange, sent, ents). plain_sentence sent) entity_results"
    using that by (intro filter_cong refl) (auto simp: keyword_search_plain list_all_iff)
  with first show ?thesis by simp
qed

theorem filter_claims_empty_labels_witness:
  "filter_claims
     [(''0.0-3.0'', map Latin1 ''I ate 5 apples'', [(''5'', ''CARDINAL'')]),
      (''3.0-5.0'', map Latin1 ''Weight matters'', [(''5'', ''CARDINAL'')])] (Some {}) None =
   [(''3.0-5.0'', map Latin1 ''Weight matters'', [(''5'', ''CARDINAL'')])]"
proof -
  have a: "\<not> contains_word domain_keywords (map Latin1 ''I ate 5 apples'') \<and>
      contains_word domain_keywords (map Latin1 ''Weight matters'')"
    by code_simp
  have p: "list_all (\<lambda>(timerange, sent, ents). plain_sentence sent)
     [(''0.0-3.0'', map Latin1 ''I ate 5 apples'', [(''5'', ''CARDINAL'')]),
      (''3.0-5.0'', map Latin1 ''Weight matters'', [(''5'', ''CARDINAL'')])]"
    by code_simp
  from a filter_claims_empty_labels
    [THEN conjunct2, rule_format, OF p]
  show ?thesis by simp
qed

section \<open>Loading the transcript\<close>

text \<open>
  C4. On an existing file, \<open>load_transcript\<close> raises ValueError (the specification's
  FormatError), with no segment returned, when some non-blank line holds no colon;
  otherwise it returns one segment per non-blank line, split at the first colon, with
  both parts stripped.
\<close>

theorem load_transcript_format:
  assumes "fs path = Some content"
  shows "load_transcript fs path =
     (if list_ex malformed (file_lines content) then Inl ValueError
      else Inr (map parse_line (filter (\<lambda>l. strip l \<noteq> []) (file_lines content))))"
  using assms by (simp add: load_transcript_def load_loop_char)

theorem load_transcript_format_witness:
  "load_transcript
     [''transcript.txt'' \<mapsto> ''0.0-3.0: You can: burn\<newline>\<newline>not a valid line\<newline>'']
     ''transcript.txt'' = Inl ValueError \<and>
   load_transcript
     [''transcript.txt'' \<mapsto> ''0.0-3.0: You can: burn\<newline>\<newline> 3.0-4.0 :x \<newline>'']
     ''transcript.txt'' = Inr [(''0.0-3.0'', ''You can: burn''), (''3.0-4.0'', ''x'')]"
proof -
  have a: "list_ex malformed (file_lines ''0.0-3.0: You can: burn\<newline>\<newline>not a valid line\<newline>'')"
    by code_simp
  have b: "\<not> list_ex malformed (file_lines ''0.0-3.0: You can: burn\<newline>\<newline> 3.0-4.0 :x \<newline>'')"
    by code_simp
  have c: "map parse_line (filter (\<lambda>l. strip l \<noteq> [])
        (file_lines ''0.0-3.0: You can: burn\<newline>\<newline> 3.0-4.0 :x \<newline>'')) =
      [(''0.0-3.0'', ''You can: burn''), (''3.0-4.0'', ''x'')]"
    by code_simp
  have f1: "[''transcript.txt'' \<mapsto> ''0.0-3.0: You can: burn\<newline>\<newline>not a valid line\<newline>'']
      ''transcript.txt'' = Some ''0.0-3.0: You can: burn\<newline>\<newline>not a valid line\<newline>''"
    by simp
  have f2: "[''transcript.txt'' \<mapsto> ''0.0-3.0: You can: burn\<newline>\<newline> 3.0-4.0 :x \<newline>'']
      ''transcript.txt'' = Some ''0.0-3.0: You can: burn\<newline>\<newline> 3.0-4.0 :x \<newline>''"
    by simp
  from f1 f2 a b c
    load_transcript_format
      [of "[''transcript.txt'' \<mapsto> ''0.0-3.0: You can: burn\<newline>\<newline>not a valid line\<newline>'']"
          "''transcript.txt''" "''0.0-3.0: You can: burn\<newline>\<newline>not a valid line\<newline>''"]
    load_transcript_format
      [of "[''transcript.txt'' \<mapsto> ''0.0-3.0: You can: burn\<newline>\<newline> 3.0-4.0 :x \<newline>'']"
          "''transcript.txt''" "''0.0-3.0: You can: burn\<newline>\<newline> 3.0-4.0 :x \<newline>''"]
  show ?thesis by simp
qed

end
